theory Spec2Isabelle
  imports Main "HOL-Library.Char_ord" "HOL-Library.List_Lexorder"
begin

section \<open>AVLdb: the balanced tree and the indexed store of AVL_Database.cpp\<close>

text \<open>
  The development embeds \<^verbatim>\<open>src/AVL_Database.cpp\<close>. The header
  \<^verbatim>\<open>AVL_Database.hpp\<close> is not among the sources, so the field types are read off the
  constructors and the uses in the .cpp file: the C++ \<^verbatim>\<open>int\<close> fields (value, height,
  nodeCount, searchComparisonCount) are modelled as \<open>int\<close>; they are only compared,
  incremented and decremented by one, and no claim concerns their overflow.
  \<^verbatim>\<open>std::string\<close> is \<open>string\<close>, compared bytewise and lexicographically
  (\<open>Char_ord\<close>, \<open>List_Lexorder\<close>) as \<^verbatim>\<open>std::string::operator<\<close> does.
  Deallocation (\<^verbatim>\<open>delete\<close>) is not modelled, except for the one pointer that
  \<^verbatim>\<open>AVLTree::search\<close> hands out to an object that no longer exists.
\<close>

subsection \<open>Records and nodes\<close>

datatype Record = Record (key: string) (val: int)

text \<open>
  \<^verbatim>\<open>AVLNode *\<close>: either \<^verbatim>\<open>nullptr\<close> or a node with its record, its two children
  and its cached height, in the order of the constructor's initialiser list.
\<close>

datatype AVLNode = nullptr | AVLNode Record AVLNode AVLNode int

record AVLTree =
  root :: AVLNode
  nodeCount :: int
  searchComparisonCount :: int

record IndexedDatabase =
  index :: AVLTree

definition AVLTree_new :: AVLTree where
  "AVLTree_new = \<lparr>root = nullptr, nodeCount = 0, searchComparisonCount = 0\<rparr>"

definition IndexedDatabase_new :: IndexedDatabase where
  "IndexedDatabase_new = \<lparr>index = AVLTree_new\<rparr>"

subsection \<open>Heights and rotations\<close>

fun height :: "AVLNode \<Rightarrow> int" where
  "height nullptr = 0"
| "height (AVLNode r l rt h) = h"

fun updateHeight :: "AVLNode \<Rightarrow> AVLNode" where
  "updateHeight nullptr = nullptr"
| "updateHeight (AVLNode r l rt h) = AVLNode r l rt (1 + max (height l) (height rt))"

fun getBalance :: "AVLNode \<Rightarrow> int" where
  "getBalance nullptr = 0"
| "getBalance (AVLNode r l rt h) = height l - height rt"

fun rotateRight :: "AVLNode \<Rightarrow> AVLNode" where
  "rotateRight nullptr = nullptr"
| "rotateRight (AVLNode r nullptr rt h) = AVLNode r nullptr rt h"
| "rotateRight (AVLNode r (AVLNode lr ll lrt lh) rt h) =
     updateHeight (AVLNode lr ll (updateHeight (AVLNode r lrt rt h)) lh)"

fun rotateLeft :: "AVLNode \<Rightarrow> AVLNode" where
  "rotateLeft nullptr = nullptr"
| "rotateLeft (AVLNode r l nullptr h) = AVLNode r l nullptr h"
| "rotateLeft (AVLNode r l (AVLNode rr rl rrt rh) h) =
     updateHeight (AVLNode rr (updateHeight (AVLNode r l rl h)) rrt rh)"

fun reBalance :: "AVLNode \<Rightarrow> AVLNode" where
  "reBalance nullptr = nullptr"
| "reBalance (AVLNode r l rt h) =
     (let h' = 1 + max (height l) (height rt);
          node = AVLNode r l rt h';
          balance = getBalance node
      in if balance > 1 \<and> getBalance l \<ge> 0 then rotateRight node
         else if balance < - 1 \<and> getBalance rt \<le> 0 then rotateLeft node
         else if balance > 1 \<and> getBalance l < 0
           then rotateRight (AVLNode r (rotateLeft l) rt h')
         else if balance < - 1 \<and> getBalance rt > 0
           then rotateLeft (AVLNode r l (rotateRight rt) h')
         else node)"

subsection \<open>Insertion\<close>

fun insertHelper :: "AVLNode \<Rightarrow> Record \<Rightarrow> AVLNode" where
  "insertHelper nullptr record = AVLNode record nullptr nullptr 1"
| "insertHelper (AVLNode r l rt h) record =
     (let node = (if key record < key r then AVLNode r (insertHelper l record) rt h
                  else if key record > key r then AVLNode r l (insertHelper rt record) h
                  else AVLNode r l rt h)
      in reBalance (updateHeight node))"

definition AVLTree_insert :: "AVLTree \<Rightarrow> Record \<Rightarrow> AVLTree" where
  "AVLTree_insert t record =
     (if root t = nullptr
      then t\<lparr>root := AVLNode record nullptr nullptr 1,
             nodeCount := nodeCount t + 1,
             searchComparisonCount := searchComparisonCount t + 1\<rparr>
      else t\<lparr>root := insertHelper (root t) record,
             nodeCount := nodeCount t + 1\<rparr>)"

subsection \<open>Pointers into the tree\<close>

text \<open>
  \<^verbatim>\<open>searchHelper\<close>, \<^verbatim>\<open>minValueNode\<close> and \<^verbatim>\<open>deleteHelper\<close> return pointers to nodes
  of the tree, which \<^verbatim>\<open>deleteNode\<close> compares (\<^verbatim>\<open>parent->left == nodeToDelete\<close>) and
  writes through. A non-null pointer to a node of the tree is modelled by the path from
  the root to that node: two such pointers are equal exactly when the paths are. The null
  pointer is \<open>None\<close>.
\<close>

datatype dir = L | R

type_synonym ptr = "dir list"

fun deref :: "AVLNode \<Rightarrow> ptr \<Rightarrow> AVLNode" where
  "deref t [] = t"
| "deref nullptr (d # p) = nullptr"
| "deref (AVLNode r l rt h) (L # p) = deref l p"
| "deref (AVLNode r l rt h) (R # p) = deref rt p"

text \<open>\<open>modify p f t\<close>: the tree \<open>t\<close> after the node that \<open>p\<close> points to is overwritten by \<open>f\<close>.\<close>

fun modify :: "ptr \<Rightarrow> (AVLNode \<Rightarrow> AVLNode) \<Rightarrow> AVLNode \<Rightarrow> AVLNode" where
  "modify [] f t = f t"
| "modify (d # p) f nullptr = nullptr"
| "modify (L # p) f (AVLNode r l rt h) = AVLNode r (modify p f l) rt h"
| "modify (R # p) f (AVLNode r l rt h) = AVLNode r l (modify p f rt) h"

fun put_left :: "AVLNode \<Rightarrow> AVLNode \<Rightarrow> AVLNode" where
  "put_left x nullptr = nullptr"
| "put_left x (AVLNode r l rt h) = AVLNode r x rt h"

fun put_right :: "AVLNode \<Rightarrow> AVLNode \<Rightarrow> AVLNode" where
  "put_right x nullptr = nullptr"
| "put_right x (AVLNode r l rt h) = AVLNode r l x h"

fun put_record :: "Record \<Rightarrow> AVLNode \<Rightarrow> AVLNode" where
  "put_record x nullptr = nullptr"
| "put_record x (AVLNode r l rt h) = AVLNode x l rt h"

subsection \<open>Search\<close>

text \<open>
  The loop of \<^verbatim>\<open>searchHelper\<close>: the first argument is the node \<^verbatim>\<open>*current\<close>, the
  second the pointer \<^verbatim>\<open>current\<close>. The parameter \<^verbatim>\<open>value\<close> is never read.
\<close>

fun searchHelper_loop :: "AVLNode \<Rightarrow> ptr \<Rightarrow> string \<Rightarrow> ptr option" where
  "searchHelper_loop nullptr current k = None"
| "searchHelper_loop (AVLNode r l rt h) current k =
     (if k < key r then searchHelper_loop l (current @ [L]) k
      else if k > key r then searchHelper_loop rt (current @ [R]) k
      else Some current)"

definition searchHelper :: "AVLNode \<Rightarrow> string \<Rightarrow> int \<Rightarrow> ptr option" where
  "searchHelper node k v = searchHelper_loop node [] k"

text \<open>
  The \<^verbatim>\<open>Record *\<close> that \<^verbatim>\<open>search\<close> returns. \<open>InTree r\<close> points to the record \<open>r\<close>
  held by a node of the tree. \<open>ExpiredLocal r\<close> is the address of the local variable
  \<^verbatim>\<open>Record record\<close> of \<^verbatim>\<open>search\<close>, which held \<open>r\<close> during the call: the function
  returns \<^verbatim>\<open>found->record\<close> where \<^verbatim>\<open>found->record == &record\<close>, and the lifetime
  of \<^verbatim>\<open>record\<close> ends with the call.
\<close>

datatype RecordPtr = InTree Record | ExpiredLocal Record

text \<open>
  \<^verbatim>\<open>search\<close> is not a const member, so the tree is passed through; no field is assigned.
  A pointer that \<^verbatim>\<open>searchHelper\<close> returns points to a node, so the inner \<open>nullptr\<close> case
  is never taken.
\<close>

definition AVLTree_search :: "AVLTree \<Rightarrow> string \<Rightarrow> int \<Rightarrow> RecordPtr \<times> AVLTree" where
  "AVLTree_search t k v =
     (case searchHelper (root t) k v of
        None \<Rightarrow> (ExpiredLocal (Record [] 0), t)
      | Some found \<Rightarrow>
          (case deref (root t) found of
             nullptr \<Rightarrow> (ExpiredLocal (Record [] 0), t)
           | AVLNode r l rt h \<Rightarrow> (InTree r, t)))"

subsection \<open>Deletion\<close>

text \<open>
  \<^verbatim>\<open>minValueNode(node)\<close>: the first argument is \<^verbatim>\<open>*node\<close>, the second the pointer.
  On a null node the source reads \<^verbatim>\<open>node->left\<close>; the model returns \<open>None\<close> for that
  failure.
\<close>

fun minValueNode :: "AVLNode \<Rightarrow> ptr \<Rightarrow> ptr option" where
  "minValueNode nullptr node = None"
| "minValueNode (AVLNode r l rt h) node =
     (if l \<noteq> nullptr then minValueNode l (node @ [L]) else Some node)"

text \<open>
  The loop of \<^verbatim>\<open>deleteHelper\<close>: \<open>ckey\<close> is \<^verbatim>\<open>child->record->key\<close>, which the loop does
  not change; \<open>parent\<close> is \<open>None\<close> while it is the null pointer.
\<close>

fun deleteHelper_loop :: "AVLNode \<Rightarrow> ptr \<Rightarrow> ptr \<Rightarrow> string \<Rightarrow> ptr option \<Rightarrow> ptr option" where
  "deleteHelper_loop nullptr current child ckey parent = parent"
| "deleteHelper_loop (AVLNode r l rt h) current child ckey parent =
     (if current = child then parent
      else if ckey < key r then deleteHelper_loop l (current @ [L]) child ckey (Some current)
      else deleteHelper_loop rt (current @ [R]) child ckey (Some current))"

text \<open>
  Both callers pass a pointer to a node of the tree as \<open>child\<close>; were it not one, the
  read of \<^verbatim>\<open>child->record\<close> would fail, which is \<open>None\<close> here as well.
\<close>

definition deleteHelper :: "AVLNode \<Rightarrow> ptr \<Rightarrow> ptr option" where
  "deleteHelper rootNode child =
     (case deref rootNode child of
        nullptr \<Rightarrow> None
      | AVLNode r l rt h \<Rightarrow> deleteHelper_loop rootNode [] child (key r) None)"

text \<open>
  The pattern that ends each of the three cases:
  \<^verbatim>\<open>if (parent->left == node) parent->left = x; else parent->right = x;\<close>
  where \<open>node\<close> points to a node of the tree, so that \<^verbatim>\<open>parent->left == node\<close> holds
  exactly when \<open>node\<close> is the path of the left child of \<open>parent\<close>. A null \<open>parent\<close> is
  dereferenced by the source: the result is \<open>None\<close>.
\<close>

definition replaceChild :: "ptr option \<Rightarrow> ptr \<Rightarrow> AVLNode \<Rightarrow> AVLNode \<Rightarrow> AVLNode option" where
  "replaceChild parent node x rootNode =
     (case parent of
        None \<Rightarrow> None
      | Some p \<Rightarrow>
          if p @ [L] = node then Some (modify p (put_left x) rootNode)
          else Some (modify p (put_right x) rootNode))"

text \<open>
  The three cases of \<^verbatim>\<open>AVLTree::deleteNode\<close> (no children, one child, two children):
  the tree under \<^verbatim>\<open>root\<close> once the node \<open>nodeToDelete\<close> is unlinked, or \<open>None\<close>
  when the source dereferences a null pointer on the way.
\<close>

definition removeNode :: "AVLNode \<Rightarrow> ptr \<Rightarrow> AVLNode option" where
  "removeNode rootNode nodeToDelete =
     (case deref rootNode nodeToDelete of
        nullptr \<Rightarrow> None
      | AVLNode r l rt h \<Rightarrow>
          if l = nullptr \<and> rt = nullptr then
            (if nodeToDelete = [] then Some nullptr
             else replaceChild (deleteHelper rootNode nodeToDelete) nodeToDelete nullptr rootNode)
          else if l = nullptr \<or> rt = nullptr then
            (let child = (if l \<noteq> nullptr then l else rt)
             in if nodeToDelete = [] then Some child
                else replaceChild (deleteHelper rootNode nodeToDelete) nodeToDelete child rootNode)
          else
            (case minValueNode rt (nodeToDelete @ [R]) of
               None \<Rightarrow> None
             | Some minNode \<Rightarrow>
                 (case deref rootNode minNode of
                    nullptr \<Rightarrow> None
                  | AVLNode mr ml mrt mh \<Rightarrow>
                      (let root1 = modify nodeToDelete (put_record mr) rootNode
                       in replaceChild (deleteHelper root1 minNode) minNode mrt root1))))"

text \<open>
  \<^verbatim>\<open>AVLTree::deleteNode\<close>: the early returns, the three cases, then
  \<^verbatim>\<open>updateHeight(root); root = reBalance(root); nodeCount--\<close>. The result is \<open>None\<close>
  when the source dereferences a null pointer, and the new tree otherwise.
\<close>

definition AVLTree_deleteNode :: "AVLTree \<Rightarrow> string \<Rightarrow> int \<Rightarrow> AVLTree option" where
  "AVLTree_deleteNode t k v =
     (if root t = nullptr then Some t
      else
        case searchHelper (root t) k v of
          None \<Rightarrow> Some t
        | Some nodeToDelete \<Rightarrow>
            (case deref (root t) nodeToDelete of
               nullptr \<Rightarrow> None
             | AVLNode r l rt h \<Rightarrow>
                 if val r \<noteq> v then Some t
                 else
                   map_option
                     (\<lambda>root'. t\<lparr>root := reBalance (updateHeight root'),
                                  nodeCount := nodeCount t - 1\<rparr>)
                     (removeNode (root t) nodeToDelete)))"

subsection \<open>The indexed store\<close>

definition IndexedDatabase_insert :: "IndexedDatabase \<Rightarrow> Record \<Rightarrow> IndexedDatabase" where
  "IndexedDatabase_insert db record = db\<lparr>index := AVLTree_insert (index db) record\<rparr>"

definition IndexedDatabase_search ::
    "IndexedDatabase \<Rightarrow> string \<Rightarrow> int \<Rightarrow> RecordPtr \<times> IndexedDatabase" where
  "IndexedDatabase_search db k v =
     (case AVLTree_search (index db) k v of (res, t) \<Rightarrow> (res, db\<lparr>index := t\<rparr>))"

definition IndexedDatabase_deleteRecord ::
    "IndexedDatabase \<Rightarrow> string \<Rightarrow> int \<Rightarrow> IndexedDatabase option" where
  "IndexedDatabase_deleteRecord db k v =
     map_option (\<lambda>t. db\<lparr>index := t\<rparr>) (AVLTree_deleteNode (index db) k v)"

text \<open>
  \<^verbatim>\<open>rangeQueryHelper\<close> appends to the vector \<open>result\<close> it is given by reference: the
  vector is passed in and returned.
\<close>

fun rangeQueryHelper :: "AVLNode \<Rightarrow> int \<Rightarrow> int \<Rightarrow> Record list \<Rightarrow> Record list" where
  "rangeQueryHelper nullptr start end result = result"
| "rangeQueryHelper (AVLNode r l rt h) start end result =
     (let result1 = (if val r > start then rangeQueryHelper l start end result else result);
          result2 = (if val r \<ge> start \<and> val r \<le> end then result1 @ [r] else result1)
      in if val r < end then rangeQueryHelper rt start end result2 else result2)"

definition rangeQuery :: "IndexedDatabase \<Rightarrow> int \<Rightarrow> int \<Rightarrow> Record list" where
  "rangeQuery db start end = rangeQueryHelper (root (index db)) start end []"

text \<open>
  \<^verbatim>\<open>clearHelper\<close> only releases memory; \<^verbatim>\<open>clearDatabase\<close> then assigns
  \<^verbatim>\<open>index.root = nullptr\<close> and nothing else.
\<close>

definition clearDatabase :: "IndexedDatabase \<Rightarrow> IndexedDatabase" where
  "clearDatabase db = db\<lparr>index := (index db)\<lparr>root := nullptr\<rparr>\<rparr>"

fun calculateHeight :: "AVLNode \<Rightarrow> int" where
  "calculateHeight nullptr = 0"
| "calculateHeight (AVLNode r l rt h) = 1 + max (calculateHeight l) (calculateHeight rt)"

definition getTreeHeight :: "IndexedDatabase \<Rightarrow> int" where
  "getTreeHeight db = calculateHeight (root (index db))"

text \<open>
  Modelled from the spec: \<^verbatim>\<open>AVLTree::getLastSearchComparisons\<close> is defined in the header
  \<^verbatim>\<open>AVL_Database.hpp\<close>, which is not among the sources. The spec says that
  \<^verbatim>\<open>getSearchComparisons\<close> "performs a search and returns the counter"; the only counter
  of the tree besides \<^verbatim>\<open>nodeCount\<close> is \<^verbatim>\<open>searchComparisonCount\<close>.
\<close>

definition getLastSearchComparisons :: "AVLTree \<Rightarrow> int" where
  "getLastSearchComparisons t = searchComparisonCount t"

definition getSearchComparisons ::
    "IndexedDatabase \<Rightarrow> string \<Rightarrow> int \<Rightarrow> int \<times> IndexedDatabase" where
  "getSearchComparisons db k v =
     (case IndexedDatabase_search db k v of
        (res, db') \<Rightarrow> (getLastSearchComparisons (index db'), db'))"

section \<open>Observations and invariants\<close>

text \<open>The records of a tree from left to right, and the keys among them.\<close>

fun inorder :: "AVLNode \<Rightarrow> Record list" where
  "inorder nullptr = []"
| "inorder (AVLNode r l rt h) = inorder l @ [r] @ inorder rt"

definition keys :: "AVLNode \<Rightarrow> string set" where
  "keys t = key ` set (inorder t)"

text \<open>Invariant 1 of the data model: the keys increase strictly from left to right.\<close>

definition bst :: "AVLNode \<Rightarrow> bool" where
  "bst t = sorted_wrt (<) (map key (inorder t))"

text \<open>The number of nodes reachable from a node.\<close>

fun countNodes :: "AVLNode \<Rightarrow> int" where
  "countNodes nullptr = 0"
| "countNodes (AVLNode r l rt h) = 1 + countNodes l + countNodes rt"

text \<open>
  Invariant 2 of the data model, on the heights as \<^verbatim>\<open>calculateHeight\<close> recomputes them:
  at every node the heights of the two subtrees differ by at most one.
\<close>

fun balanced :: "AVLNode \<Rightarrow> bool" where
  "balanced nullptr = True"
| "balanced (AVLNode r l rt h) =
     (\<bar>calculateHeight l - calculateHeight rt\<bar> \<le> 1 \<and> balanced l \<and> balanced rt)"

text \<open>
  The same invariant together with invariant 3 (every cached height is one more than the
  larger cached height of the children), which is what \<^verbatim>\<open>reBalance\<close> relies on.
\<close>

fun avl :: "AVLNode \<Rightarrow> bool" where
  "avl nullptr = True"
| "avl (AVLNode r l rt h) =
     (avl l \<and> avl rt \<and> \<bar>height l - height rt\<bar> \<le> 1 \<and> h = 1 + max (height l) (height rt))"

text \<open>The values do not decrease from left to right, that is, in key order.\<close>

definition valueSorted :: "AVLNode \<Rightarrow> bool" where
  "valueSorted t = sorted_wrt (\<le>) (map val (inorder t))"

text \<open>
  The traversal as the block comment above \<^verbatim>\<open>rangeQueryHelper\<close> (lines 264 to 270 of
  the source) prescribes it: the left subtree if the value is at least \<open>start\<close>, the
  record if its value lies in the closed interval, the right subtree if the value is at
  most \<open>end\<close>. The function below that comment tests the two subtrees with strict
  comparisons instead.
\<close>

fun traversal_commented :: "AVLNode \<Rightarrow> int \<Rightarrow> int \<Rightarrow> Record list" where
  "traversal_commented nullptr start end = []"
| "traversal_commented (AVLNode r l rt h) start end =
     (if val r \<ge> start then traversal_commented l start end else []) @
     (if start \<le> val r \<and> val r \<le> end then [r] else []) @
     (if val r \<le> end then traversal_commented rt start end else [])"

text \<open>
  The range-query traversal in the words of the specification: nothing for an absent
  node; the left subtree if the value is above \<open>start\<close>, then the record if its value
  lies in the closed interval, then the right subtree if the value is below \<open>end\<close>.
\<close>

fun traversal_spec :: "AVLNode \<Rightarrow> int \<Rightarrow> int \<Rightarrow> Record list" where
  "traversal_spec nullptr start end = []"
| "traversal_spec (AVLNode r l rt h) start end =
     (if val r > start then traversal_spec l start end else []) @
     (if start \<le> val r \<and> val r \<le> end then [r] else []) @
     (if val r < end then traversal_spec rt start end else [])"

text \<open>
  \<open>descends k t p\<close>: the descent of \<^verbatim>\<open>deleteHelper\<close> through \<open>t\<close> with the key \<open>k\<close>
  (left where \<open>k\<close> is less than the node's key, right otherwise) follows the path \<open>p\<close>
  and ends on a node.
\<close>

fun descends :: "string \<Rightarrow> AVLNode \<Rightarrow> ptr \<Rightarrow> bool" where
  "descends k t [] = (t \<noteq> nullptr)"
| "descends k nullptr (d # p) = False"
| "descends k (AVLNode r l rt h) (L # p) = (k < key r \<and> descends k l p)"
| "descends k (AVLNode r l rt h) (R # p) = (\<not> k < key r \<and> descends k rt p)"

text \<open>The states of the store that its operations produce from the empty store.\<close>

inductive reachable :: "IndexedDatabase \<Rightarrow> bool" where
  reachable_new: "reachable IndexedDatabase_new"
| reachable_insert: "reachable db \<Longrightarrow> reachable (IndexedDatabase_insert db r)"
| reachable_delete:
    "reachable db \<Longrightarrow> IndexedDatabase_deleteRecord db k v = Some db' \<Longrightarrow> reachable db'"
| reachable_clear: "reachable db \<Longrightarrow> reachable (clearDatabase db)"

section \<open>Rotations and insertion keep the records in order\<close>

lemma inorder_updateHeight [simp]: "inorder (updateHeight t) = inorder t"
  by (cases t) simp_all

lemma inorder_rotateRight [simp]: "inorder (rotateRight t) = inorder t"
  by (cases t rule: rotateRight.cases) simp_all

lemma inorder_rotateLeft [simp]: "inorder (rotateLeft t) = inorder t"
  by (cases t rule: rotateLeft.cases) simp_all

lemma inorder_reBalance [simp]: "inorder (reBalance t) = inorder t"
  by (cases t) (simp_all add: Let_def)

lemma keys_simps [simp]:
  "keys nullptr = {}"
  "keys (AVLNode r l rt h) = keys l \<union> {key r} \<union> keys rt"
  by (auto simp: keys_def)

lemma bst_simps [simp]:
  "bst nullptr"
  "bst (AVLNode r l rt h) = (bst l \<and> bst rt \<and> (\<forall>k \<in> keys l. k < key r) \<and> (\<forall>k \<in> keys rt. key r < k))"
  by (auto simp: bst_def keys_def sorted_wrt_append intro: less_trans)

lemma inorder_insertHelper_present:
  "bst t \<Longrightarrow> key x \<in> keys t \<Longrightarrow> inorder (insertHelper t x) = inorder t"
  by (induction t) (auto simp: Let_def)

lemma set_insertHelper_absent:
  "key x \<notin> keys t \<Longrightarrow> set (inorder (insertHelper t x)) = insert x (set (inorder t))"
  by (induction t) (auto simp: Let_def)

lemma keys_insertHelper: "keys (insertHelper t x) = insert (key x) (keys t)"
  by (induction t) (auto simp: Let_def keys_def)

lemma keys_eq: "inorder t = inorder t' \<Longrightarrow> keys t = keys t'"
  by (simp add: keys_def)

lemma bst_eq: "inorder t = inorder t' \<Longrightarrow> bst t = bst t'"
  by (simp add: bst_def)

lemma bst_insertHelper: "bst t \<Longrightarrow> bst (insertHelper t x)"
proof (induction t)
  case nullptr
  show ?case by simp
next
  case (AVLNode r l rt h)
  show ?case using AVLNode
    by (auto simp: Let_def keys_insertHelper bst_eq [of "reBalance _"] bst_eq [of "updateHeight _"])
qed

lemma searchHelper_loop_absent: "k \<notin> keys t \<Longrightarrow> searchHelper_loop t cur k = None"
  by (induction t arbitrary: cur) auto

lemma searchHelper_loop_present:
  "bst t \<Longrightarrow> x \<in> set (inorder t) \<Longrightarrow>
   \<exists>q l rt h. searchHelper_loop t cur (key x) = Some (cur @ q) \<and> deref t q = AVLNode x l rt h"
proof (induction t arbitrary: cur)
  case nullptr
  then show ?case by simp
next
  case (AVLNode r l rt h)
  consider (left) "x \<in> set (inorder l)" | (here) "x = r" | (right) "x \<in> set (inorder rt)"
    using AVLNode.prems(2) by auto
  then show ?case
  proof cases
    case left
    with AVLNode.prems have lt: "key x < key r" by (auto simp: keys_def)
    from AVLNode.IH(1) [of "cur @ [L]"] AVLNode.prems left
    obtain q l' rt' h' where "searchHelper_loop l (cur @ [L]) (key x) = Some ((cur @ [L]) @ q)"
      "deref l q = AVLNode x l' rt' h'" by auto
    with lt show ?thesis by (intro exI [of _ "L # q"]) simp
  next
    case here
    then show ?thesis by (intro exI [of _ "[]"]) simp
  next
    case right
    with AVLNode.prems have gt: "key r < key x" by (auto simp: keys_def)
    from AVLNode.IH(2) [of "cur @ [R]"] AVLNode.prems right
    obtain q l' rt' h' where "searchHelper_loop rt (cur @ [R]) (key x) = Some ((cur @ [R]) @ q)"
      "deref rt q = AVLNode x l' rt' h'" by auto
    moreover from gt have "\<not> key x < key r" by auto
    ultimately show ?thesis using gt by (intro exI [of _ "R # q"]) simp
  qed
qed

lemma searchHelper_loop_Some:
  "searchHelper_loop t cur k = Some p \<Longrightarrow>
   \<exists>q r l rt h. p = cur @ q \<and> deref t q = AVLNode r l rt h \<and> key r = k"
proof (induction t arbitrary: cur)
  case nullptr
  then show ?case by simp
next
  case (AVLNode r l rt h)
  show ?case
  proof (cases "k < key r")
    case True
    with AVLNode.prems have "searchHelper_loop l (cur @ [L]) k = Some p" by simp
    from AVLNode.IH(1) [OF this] obtain q r' l' rt' h'
      where "p = (cur @ [L]) @ q" "deref l q = AVLNode r' l' rt' h'" "key r' = k" by blast
    then show ?thesis by (intro exI [of _ "L # q"]) simp
  next
    case False
    show ?thesis
    proof (cases "key r < k")
      case True
      with False AVLNode.prems have "searchHelper_loop rt (cur @ [R]) k = Some p" by simp
      from AVLNode.IH(2) [OF this] obtain q r' l' rt' h'
        where "p = (cur @ [R]) @ q" "deref rt q = AVLNode r' l' rt' h'" "key r' = k" by blast
      then show ?thesis by (intro exI [of _ "R # q"]) simp
    next
      case nlt: False
      with False AVLNode.prems have "p = cur" "key r = k" by auto
      then show ?thesis by (intro exI [of _ "[]"]) simp
    qed
  qed
qed

lemma deref_nullptr [simp]: "deref nullptr p = nullptr"
  by (cases p) simp_all

lemma deref_append: "deref t (p @ q) = deref (deref t p) q"
  by (induction t p rule: deref.induct) simp_all

lemma set_inorder_deref: "set (inorder (deref t p)) \<subseteq> set (inorder t)"
  by (induction t p rule: deref.induct) auto

lemma keys_deref: "keys (deref t p) \<subseteq> keys t"
  using set_inorder_deref [of t p] by (auto simp: keys_def)

lemma bst_deref: "bst t \<Longrightarrow> bst (deref t p)"
  by (induction t p rule: deref.induct) auto

lemma modify_append: "modify (p @ q) f t = modify p (modify q f) t"
  by (induction p f t rule: modify.induct) simp_all

lemma modify_modify: "modify p g (modify p f t) = modify p (\<lambda>n. g (f n)) t"
  by (induction p f t rule: modify.induct) simp_all

lemma deref_modify: "deref t p \<noteq> nullptr \<Longrightarrow> deref (modify p f t) p = f (deref t p)"
  by (induction p f t rule: modify.induct) simp_all

lemma modify_put_left:
  "deref t p \<noteq> nullptr \<Longrightarrow> modify p (put_left x) t = modify (p @ [L]) (\<lambda>_. x) t"
proof (induction p "put_left x" t rule: modify.induct)
  case (1 t)
  then show ?case by (cases t) simp_all
qed simp_all

lemma modify_put_right:
  "deref t p \<noteq> nullptr \<Longrightarrow> modify p (put_right x) t = modify (p @ [R]) (\<lambda>_. x) t"
proof (induction p "put_right x" t rule: modify.induct)
  case (1 t)
  then show ?case by (cases t) simp_all
qed simp_all

lemma inorder_modify:
  "deref t p \<noteq> nullptr \<Longrightarrow>
   \<exists>xs ys. inorder t = xs @ inorder (deref t p) @ ys \<and>
           (\<forall>f. inorder (modify p f t) = xs @ inorder (f (deref t p)) @ ys)"
proof (induction t p rule: deref.induct)
  case (1 t)
  show ?case by (intro exI [of _ "[]"]) simp
next
  case (2 d p)
  then show ?case by simp
next
  case (3 r l rt h p)
  then obtain xs ys where "inorder l = xs @ inorder (deref l p) @ ys"
    "\<forall>f. inorder (modify p f l) = xs @ inorder (f (deref l p)) @ ys" by auto
  then show ?case by (intro exI [of _ xs] exI [of _ "ys @ r # inorder rt"]) simp
next
  case (4 r l rt h p)
  then obtain xs ys where "inorder rt = xs @ inorder (deref rt p) @ ys"
    "\<forall>f. inorder (modify p f rt) = xs @ inorder (f (deref rt p)) @ ys" by auto
  then show ?case by (intro exI [of _ "inorder l @ r # xs"] exI [of _ ys]) simp
qed

lemma descends_deref: "descends k t p \<Longrightarrow> deref t p \<noteq> nullptr"
  by (induction k t p rule: descends.induct) simp_all

lemma descends_append: "descends k t (p @ q) = (descends k t p \<and> descends k (deref t p) q)"
proof (induction k t p rule: descends.induct)
  case (1 k t)
  show ?case by (cases q; cases t) simp_all
qed simp_all

lemma descends_modify:
  "deref t p \<noteq> nullptr \<Longrightarrow> f (deref t p) \<noteq> nullptr \<Longrightarrow>
   descends k (modify p f t) p = descends k t p"
  by (induction k t p rule: descends.induct) simp_all

lemma bst_descends:
  "bst t \<Longrightarrow> deref t p \<noteq> nullptr \<Longrightarrow> x \<in> set (inorder (deref t p)) \<Longrightarrow>
   descends (key x) t p"
proof (induction t p rule: deref.induct)
  case (3 r l rt h p)
  from "3.prems"(3) have "key x \<in> keys l"
    using set_inorder_deref [of l p] by (auto simp: keys_def)
  with 3 show ?case by simp
next
  case (4 r l rt h p)
  from "4.prems"(3) have "key x \<in> keys rt"
    using set_inorder_deref [of rt p] by (auto simp: keys_def)
  with "4.prems"(1) have "key r < key x" by simp
  then have "\<not> key x < key r" by auto
  with 4 show ?case by simp
qed simp_all

lemma deleteHelper_loop_descends:
  "descends k t q \<Longrightarrow>
   deleteHelper_loop t cur (cur @ q) k parent = (if q = [] then parent else Some (cur @ butlast q))"
proof (induction k t q arbitrary: cur parent rule: descends.induct)
  case (1 k t)
  then show ?case by (cases t) simp_all
next
  case (2 k d p)
  then show ?case by simp
next
  case (3 k r l rt h p)
  from "3.prems" have d: "descends k l p" and lt: "k < key r" by simp_all
  from "3.IH" [OF d, of "cur @ [L]" "Some cur"]
  have "deleteHelper_loop l (cur @ [L]) (cur @ L # p) k (Some cur)
      = (if p = [] then Some cur else Some (cur @ L # butlast p))" by simp
  with lt show ?case by simp
next
  case (4 k r l rt h p)
  from "4.prems" have d: "descends k rt p" and nlt: "\<not> k < key r" by simp_all
  from "4.IH" [OF d, of "cur @ [R]" "Some cur"]
  have "deleteHelper_loop rt (cur @ [R]) (cur @ R # p) k (Some cur)
      = (if p = [] then Some cur else Some (cur @ R # butlast p))" by simp
  with nlt show ?case by simp
qed

lemma replaceChild_deleteHelper:
  assumes "deref t p = AVLNode r l rt h" and "descends (key r) t p" and "p \<noteq> []"
  shows "replaceChild (deleteHelper t p) p x t = Some (modify p (\<lambda>_. x) t)"
proof -
  from assms(3) obtain q d where p: "p = q @ [d]" by (metis rev_exhaust)
  have dh: "deleteHelper t p = Some q"
    using deleteHelper_loop_descends [OF assms(2), of "[]" None] assms(1) p
    by (simp add: deleteHelper_def)
  have "deref t q \<noteq> nullptr"
    using assms(1) p by (auto simp: deref_append)
  then show ?thesis
    using dh p by (cases d) (simp_all add: replaceChild_def modify_put_left modify_put_right)
qed

lemma minValueNode_first:
  "t \<noteq> nullptr \<Longrightarrow>
   \<exists>q mr mrt mh. minValueNode t cur = Some (cur @ q) \<and> deref t q = AVLNode mr nullptr mrt mh \<and>
      inorder t = mr # inorder (modify q (\<lambda>_. mrt) t)"
proof (induction t arbitrary: cur)
  case nullptr
  then show ?case by simp
next
  case (AVLNode r l rt h)
  show ?case
  proof (cases "l = nullptr")
    case True
    then show ?thesis by (intro exI [of _ "[]"]) simp
  next
    case False
    from AVLNode.IH(1) [OF False, of "cur @ [L]"] obtain q mr mrt mh where
      "minValueNode l (cur @ [L]) = Some ((cur @ [L]) @ q)" "deref l q = AVLNode mr nullptr mrt mh"
      "inorder l = mr # inorder (modify q (\<lambda>_. mrt) l)" by blast
    with False show ?thesis by (intro exI [of _ "L # q"]) simp
  qed
qed

lemma removeNode_inorder:
  assumes "bst t" and node: "deref t p = AVLNode r l rt h"
  shows "\<exists>t' xs ys. removeNode t p = Some t' \<and> inorder t = xs @ [r] @ ys \<and> inorder t' = xs @ ys"
proof -
  have valid: "deref t p \<noteq> nullptr" using node by simp
  have desc: "descends (key r) t p"
    using bst_descends [OF assms(1) valid, of r] node by simp
  from inorder_modify [OF valid] node obtain xs ys where
    split: "inorder t = xs @ (inorder l @ [r] @ inorder rt) @ ys" and
    upd: "\<And>f. inorder (modify p f t) = xs @ inorder (f (AVLNode r l rt h)) @ ys"
    by auto
  consider (none) "l = nullptr" "rt = nullptr"
    | (one) "l = nullptr \<or> rt = nullptr" "\<not> (l = nullptr \<and> rt = nullptr)"
    | (two) "l \<noteq> nullptr" "rt \<noteq> nullptr" by blast
  then show ?thesis
  proof cases
    case none
    have "removeNode t p = Some (modify p (\<lambda>_. nullptr) t)"
    proof (cases "p = []")
      case True
      with node none show ?thesis by (simp add: removeNode_def)
    next
      case False
      with node none replaceChild_deleteHelper [OF node desc False]
      show ?thesis by (simp add: removeNode_def)
    qed
    with split upd [of "\<lambda>_. nullptr"] none show ?thesis
      by (intro exI [of _ "modify p (\<lambda>_. nullptr) t"] exI [of _ xs] exI [of _ ys]) simp
  next
    case one
    define child where "child = (if l \<noteq> nullptr then l else rt)"
    have "removeNode t p = Some (modify p (\<lambda>_. child) t)"
    proof (cases "p = []")
      case True
      with node one show ?thesis by (auto simp: removeNode_def child_def)
    next
      case False
      with node one replaceChild_deleteHelper [OF node desc False]
      show ?thesis by (auto simp: removeNode_def child_def)
    qed
    moreover have "inorder l @ inorder rt = inorder child"
      using one by (auto simp: child_def)
    ultimately show ?thesis
      using split upd [of "\<lambda>_. child"]
      by (intro exI [of _ "modify p (\<lambda>_. child) t"] exI [of _ "xs @ inorder l"]
          exI [of _ "inorder rt @ ys"]) simp
  next
    case two
    from minValueNode_first [OF two(2), of "p @ [R]"] obtain q mr mrt mh where
      minp: "minValueNode rt (p @ [R]) = Some (p @ R # q)" and
      minn: "deref rt q = AVLNode mr nullptr mrt mh" and
      first: "inorder rt = mr # inorder (modify q (\<lambda>_. mrt) rt)" by auto
    define root1 where "root1 = modify p (put_record mr) t"
    have dmin: "deref t (p @ R # q) = AVLNode mr nullptr mrt mh"
      using node minn by (simp add: deref_append)
    have d1p: "deref root1 p = AVLNode mr l rt h"
      using node valid by (simp add: root1_def deref_modify)
    then have d1min: "deref root1 (p @ R # q) = AVLNode mr nullptr mrt mh"
      using minn by (simp add: deref_append)
    have "mr \<in> set (inorder (deref t p))" using node first by simp
    from bst_descends [OF assms(1) valid this] have "descends (key mr) t p" .
    then have "descends (key mr) root1 p"
      using valid node by (simp add: root1_def descends_modify)
    moreover have "descends (key mr) rt q"
    proof -
      have "bst rt" using bst_deref [OF assms(1), of p] node by simp
      moreover have "deref rt q \<noteq> nullptr" using minn by simp
      moreover have "mr \<in> set (inorder (deref rt q))" using minn by simp
      ultimately show ?thesis by (rule bst_descends)
    qed
    ultimately have desc1: "descends (key mr) root1 (p @ R # q)"
      using d1p by (simp add: descends_append)
    have "replaceChild (deleteHelper root1 (p @ R # q)) (p @ R # q) mrt root1
        = Some (modify (p @ R # q) (\<lambda>_. mrt) root1)"
      by (rule replaceChild_deleteHelper [OF d1min desc1]) simp
    with node two minp dmin
    have rem: "removeNode t p = Some (modify (p @ R # q) (\<lambda>_. mrt) root1)"
      by (simp add: removeNode_def root1_def)
    have "modify (p @ R # q) (\<lambda>_. mrt) root1
        = modify p (\<lambda>n. modify (R # q) (\<lambda>_. mrt) (put_record mr n)) t"
      by (simp add: root1_def modify_append modify_modify)
    then have "inorder (modify (p @ R # q) (\<lambda>_. mrt) root1)
        = xs @ (inorder l @ [mr] @ inorder (modify q (\<lambda>_. mrt) rt)) @ ys"
      using upd by simp
    also have "\<dots> = (xs @ inorder l) @ (inorder rt @ ys)"
      using first by simp
    finally show ?thesis
      using rem split
      by (intro exI [of _ "modify (p @ R # q) (\<lambda>_. mrt) root1"] exI [of _ "xs @ inorder l"]
          exI [of _ "inorder rt @ ys"]) simp
  qed
qed

section \<open>Deletion\<close>

lemma bst_remove1:
  assumes "sorted_wrt (<) (map key (xs @ [x] @ ys))"
  shows "remove1 x (xs @ [x] @ ys) = xs @ ys"
proof -
  from assms have "\<forall>y \<in> set xs. key y < key x" by (auto simp: sorted_wrt_append)
  then have "x \<notin> set xs" by auto
  then show ?thesis by (simp add: remove1_append)
qed

lemma AVLTree_deleteNode_cases:
  assumes "bst (root t)"
  shows "(Record k v \<in> set (inorder (root t)) \<and>
          (\<exists>t' xs ys. AVLTree_deleteNode t k v = Some t' \<and>
             inorder (root t) = xs @ [Record k v] @ ys \<and> inorder (root t') = xs @ ys \<and>
             nodeCount t' = nodeCount t - 1 \<and>
             searchComparisonCount t' = searchComparisonCount t)) \<or>
         (Record k v \<notin> set (inorder (root t)) \<and> AVLTree_deleteNode t k v = Some t)"
proof (cases "Record k v \<in> set (inorder (root t))")
  case True
  then have nonnull: "root t \<noteq> nullptr" by auto
  from searchHelper_loop_present [OF assms True, of "[]"] obtain p l rt h where
    found: "searchHelper (root t) k v = Some p" and
    node: "deref (root t) p = AVLNode (Record k v) l rt h"
    by (auto simp: searchHelper_def)
  from removeNode_inorder [OF assms node] obtain t' xs ys where
    rem: "removeNode (root t) p = Some t'" and
    before: "inorder (root t) = xs @ [Record k v] @ ys" and
    after: "inorder t' = xs @ ys" by blast
  define t'' where "t'' = t\<lparr>root := reBalance (updateHeight t'), nodeCount := nodeCount t - 1\<rparr>"
  have "AVLTree_deleteNode t k v = Some t''"
    using nonnull found node rem by (simp add: AVLTree_deleteNode_def t''_def)
  moreover have "inorder (root t'') = xs @ ys" "nodeCount t'' = nodeCount t - 1"
    "searchComparisonCount t'' = searchComparisonCount t"
    using after by (simp_all add: t''_def)
  ultimately show ?thesis using True before by blast
next
  case False
  have "AVLTree_deleteNode t k v = Some t"
  proof (cases "searchHelper (root t) k v")
    case None
    then show ?thesis by (simp add: AVLTree_deleteNode_def)
  next
    case (Some p)
    from searchHelper_loop_Some [of "root t" "[]" k p] Some obtain r l rt h where
      node: "deref (root t) p = AVLNode r l rt h" and k: "key r = k"
      by (auto simp: searchHelper_def)
    have "r \<in> set (inorder (root t))"
      using set_inorder_deref [of "root t" p] node by auto
    with False k have "val r \<noteq> v" by (cases r) auto
    with Some node show ?thesis by (simp add: AVLTree_deleteNode_def)
  qed
  with False show ?thesis by simp
qed

lemma bst_AVLTree_deleteNode:
  assumes "bst (root t)" and "AVLTree_deleteNode t k v = Some t'"
  shows "bst (root t')"
  using AVLTree_deleteNode_cases [OF assms(1), of k v] assms
  by (auto simp: bst_def sorted_wrt_append)

text \<open>
  Claim C3. On a tree whose keys are ordered, \<^verbatim>\<open>deleteNode(key, value)\<close> removes exactly
  the node that holds the record with this key and this value and decrements
  \<^verbatim>\<open>nodeCount\<close> by one: the records of the new tree, from left to right, are those of
  the old one without that record. If no node holds such a record (the key is absent, or
  the node found for the key holds another value), the call returns the tree as it was,
  \<^verbatim>\<open>nodeCount\<close> included. In both cases no null pointer is dereferenced.
\<close>

theorem deleteNode_removes_match:
  assumes "bst (root t)"
  shows "if Record k v \<in> set (inorder (root t))
         then \<exists>t'. AVLTree_deleteNode t k v = Some t' \<and>
                inorder (root t') = remove1 (Record k v) (inorder (root t)) \<and>
                nodeCount t' = nodeCount t - 1
         else AVLTree_deleteNode t k v = Some t"
proof (cases "Record k v \<in> set (inorder (root t))")
  case True
  with AVLTree_deleteNode_cases [OF assms, of k v] obtain t' xs ys where
    del: "AVLTree_deleteNode t k v = Some t'" and
    before: "inorder (root t) = xs @ [Record k v] @ ys" and
    after: "inorder (root t') = xs @ ys" and
    count: "nodeCount t' = nodeCount t - 1" by blast
  have "remove1 (Record k v) (inorder (root t)) = xs @ ys"
    using assms bst_remove1 [of xs "Record k v" ys] by (simp add: bst_def before)
  with True del after count show ?thesis by simp
next
  case False
  with AVLTree_deleteNode_cases [OF assms, of k v] show ?thesis by simp
qed

text \<open>
  The theorem at the tree of the keys f, m, t: deleting (m, 10), a node with two
  children, leaves f and t and a count of two.
\<close>

theorem deleteNode_removes_match_witness:
  "bst (root \<lparr>root = AVLNode (Record ''m'' 10) (AVLNode (Record ''f'' 5) nullptr nullptr 1)
                 (AVLNode (Record ''t'' 20) nullptr nullptr 1) 2,
               nodeCount = 3, searchComparisonCount = 1\<rparr>) \<and>
   (\<exists>t'. AVLTree_deleteNode
            \<lparr>root = AVLNode (Record ''m'' 10) (AVLNode (Record ''f'' 5) nullptr nullptr 1)
                 (AVLNode (Record ''t'' 20) nullptr nullptr 1) 2,
               nodeCount = 3, searchComparisonCount = 1\<rparr> ''m'' 10 = Some t' \<and>
          inorder (root t') = [Record ''f'' 5, Record ''t'' 20] \<and> nodeCount t' = 2)"
  using deleteNode_removes_match
    [of "\<lparr>root = AVLNode (Record ''m'' 10) (AVLNode (Record ''f'' 5) nullptr nullptr 1)
                 (AVLNode (Record ''t'' 20) nullptr nullptr 1) 2,
               nodeCount = 3, searchComparisonCount = 1\<rparr>" "''m''" 10]
  by simp

section \<open>Insertion and search\<close>

lemma AVLTree_search_present:
  assumes "bst (root t)" and "x \<in> set (inorder (root t))"
  shows "AVLTree_search t (key x) v = (InTree x, t)"
proof -
  from searchHelper_loop_present [OF assms, of "[]"] obtain p l rt h where
    "searchHelper (root t) (key x) v = Some p" "deref (root t) p = AVLNode x l rt h"
    by (auto simp: searchHelper_def)
  then show ?thesis by (simp add: AVLTree_search_def)
qed

lemma AVLTree_search_absent:
  "k \<notin> keys (root t) \<Longrightarrow> AVLTree_search t k v = (ExpiredLocal (Record [] 0), t)"
  by (simp add: AVLTree_search_def searchHelper_def searchHelper_loop_absent)

lemma root_AVLTree_insert: "root (AVLTree_insert t r) = insertHelper (root t) r"
  by (cases "root t") (simp_all add: AVLTree_insert_def)

lemma bst_AVLTree_insert: "bst (root t) \<Longrightarrow> bst (root (AVLTree_insert t r))"
  by (simp add: root_AVLTree_insert bst_insertHelper)

lemma AVLTree_insert_present:
  assumes "bst (root t)" and "x \<in> set (inorder (root t))" and "key r = key x"
  shows "inorder (root (AVLTree_insert t r)) = inorder (root t)"
    and "AVLTree_search (AVLTree_insert t r) (key r) v = (InTree x, AVLTree_insert t r)"
proof -
  have present: "key r \<in> keys (root t)" using assms(2,3) by (auto simp: keys_def)
  show same: "inorder (root (AVLTree_insert t r)) = inorder (root t)"
    using inorder_insertHelper_present [OF assms(1) present] by (simp add: root_AVLTree_insert)
  then have "x \<in> set (inorder (root (AVLTree_insert t r)))"
    using assms(2) by simp
  from AVLTree_search_present [OF bst_AVLTree_insert [OF assms(1)] this, of v] assms(3)
  show "AVLTree_search (AVLTree_insert t r) (key r) v = (InTree x, AVLTree_insert t r)" by simp
qed

lemma AVLTree_insert_absent:
  assumes "bst (root t)" and "key r \<notin> keys (root t)"
  shows "AVLTree_search (AVLTree_insert t r) (key r) v = (InTree r, AVLTree_insert t r)"
proof -
  have "r \<in> set (inorder (root (AVLTree_insert t r)))"
    using set_insertHelper_absent [OF assms(2)] by (simp add: root_AVLTree_insert)
  from AVLTree_search_present [OF bst_AVLTree_insert [OF assms(1)] this] show ?thesis .
qed

subsection \<open>Every state of the store has ordered keys\<close>

text \<open>
  The theorems below assume \<open>bst\<close> of the tree. Every state that the operations of the
  store produce from the empty store satisfies it, and on such a state
  \<^verbatim>\<open>deleteRecord\<close> never dereferences a null pointer.
\<close>

lemma bst_IndexedDatabase_new: "bst (root (index IndexedDatabase_new))"
  by (simp add: IndexedDatabase_new_def AVLTree_new_def)

lemma reachable_bst: "reachable db \<Longrightarrow> bst (root (index db))"
proof (induction rule: reachable.induct)
  case reachable_new
  show ?case by (rule bst_IndexedDatabase_new)
next
  case (reachable_insert db r)
  then show ?case by (simp add: IndexedDatabase_insert_def bst_AVLTree_insert)
next
  case (reachable_delete db k v db')
  then show ?case
    by (auto simp: IndexedDatabase_deleteRecord_def dest: bst_AVLTree_deleteNode)
next
  case (reachable_clear db)
  show ?case by (simp add: clearDatabase_def)
qed

lemma reachable_deleteRecord_total:
  assumes "reachable db"
  shows "\<exists>db'. IndexedDatabase_deleteRecord db k v = Some db'"
  using AVLTree_deleteNode_cases [OF reachable_bst [OF assms], of k v]
  by (auto simp: IndexedDatabase_deleteRecord_def)

subsection \<open>Insertion of a key that is already there\<close>

text \<open>
  Claim C4 as stated fails: \<^verbatim>\<open>insertHelper\<close> tests \<^verbatim>\<open><\<close> and then \<^verbatim>\<open>>\<close>, so a
  record whose key equals a node's key follows neither branch. After inserting (a, 1)
  and then (a, 2), the record (a, 2) is not in the tree, which has one node.
\<close>

theorem insert_existing_key_not_stored:
  "Record ''a'' 2 \<notin> set (inorder (root
     (AVLTree_insert (AVLTree_insert AVLTree_new (Record ''a'' 1)) (Record ''a'' 2)))) \<and>
   countNodes (root (AVLTree_insert (AVLTree_insert AVLTree_new (Record ''a'' 1)) (Record ''a'' 2))) = 1"
  by (simp add: AVLTree_insert_def AVLTree_new_def)

text \<open>
  Claim C4, amended. When \<^verbatim>\<open>insert\<close> is called with a record whose key equals the key
  of an existing node, no node is created and the record is not stored: the tree holds
  the same records in the same order as before (only cached heights are recomputed and
  rotations applied along the search path), so two nodes never carry the same key, and
  \<^verbatim>\<open>search\<close> for that key returns the record that was there before.
\<close>

theorem insert_existing_key_keeps_records:
  assumes "bst (root t)" and "x \<in> set (inorder (root t))" and "key r = key x"
  shows "inorder (root (AVLTree_insert t r)) = inorder (root t) \<and>
         fst (AVLTree_search (AVLTree_insert t r) (key r) v) = InTree x"
  using AVLTree_insert_present(1) [OF assms] AVLTree_insert_present(2) [OF assms, of v] by simp

theorem insert_existing_key_keeps_records_witness:
  "bst (root (AVLTree_insert AVLTree_new (Record ''a'' 1))) \<and>
   Record ''a'' 1 \<in> set (inorder (root (AVLTree_insert AVLTree_new (Record ''a'' 1)))) \<and>
   key (Record ''a'' 2) = key (Record ''a'' 1) \<and>
   inorder (root (AVLTree_insert (AVLTree_insert AVLTree_new (Record ''a'' 1)) (Record ''a'' 2)))
     = [Record ''a'' 1] \<and>
   fst (AVLTree_search
          (AVLTree_insert (AVLTree_insert AVLTree_new (Record ''a'' 1)) (Record ''a'' 2)) ''a'' 2)
     = InTree (Record ''a'' 1)"
  using insert_existing_key_keeps_records
    [of "AVLTree_insert AVLTree_new (Record ''a'' 1)" "Record ''a'' 1" "Record ''a'' 2" 2]
  by (simp add: AVLTree_insert_def AVLTree_new_def)

subsection \<open>Insert, then search\<close>

text \<open>
  Claim C9 as stated fails on a key that is already in the tree: after inserting (a, 1)
  and then (a, 2), the search for a returns the record with the value 1, not the value
  inserted last.
\<close>

theorem insert_search_returns_old_value:
  "fst (AVLTree_search
          (AVLTree_insert (AVLTree_insert AVLTree_new (Record ''a'' 1)) (Record ''a'' 2)) ''a'' 2)
     = InTree (Record ''a'' 1) \<and>
   val (Record ''a'' 1) \<noteq> val (Record ''a'' 2)"
  by (simp add: AVLTree_insert_def AVLTree_new_def AVLTree_search_def searchHelper_def)

text \<open>
  Claim C9, amended. For every tree with ordered keys and every record \<open>r\<close>,
  \<^verbatim>\<open>insert(r)\<close> followed by \<^verbatim>\<open>search\<close> with the key of \<open>r\<close> returns a record of the
  tree whose key equals the key of \<open>r\<close>; it is \<open>r\<close> itself, with the value inserted, when
  no node carried that key before the insertion, and otherwise the record that the tree
  already held for the key.
\<close>

theorem insert_search_roundtrip:
  assumes "bst (root t)"
  shows "\<exists>x. fst (AVLTree_search (AVLTree_insert t r) (key r) v) = InTree x \<and> key x = key r \<and>
             (if key r \<in> keys (root t) then x \<in> set (inorder (root t)) else x = r)"
proof (cases "key r \<in> keys (root t)")
  case True
  then obtain x where x: "x \<in> set (inorder (root t))" "key r = key x" by (auto simp: keys_def)
  from AVLTree_insert_present(2) [OF assms x, of v] x True show ?thesis by auto
next
  case False
  from AVLTree_insert_absent [OF assms False, of v] False show ?thesis by auto
qed

theorem insert_search_roundtrip_witness:
  "bst (root (AVLTree_insert AVLTree_new (Record ''a'' 1))) \<and>
   fst (AVLTree_search
          (AVLTree_insert (AVLTree_insert AVLTree_new (Record ''a'' 1)) (Record ''b'' 2)) ''b'' 7)
     = InTree (Record ''b'' 2)"
  using insert_search_roundtrip [of "AVLTree_insert AVLTree_new (Record ''a'' 1)" "Record ''b'' 2" 7]
  by (simp add: AVLTree_insert_def AVLTree_new_def keys_def)

section \<open>The range query\<close>

lemma rangeQueryHelper_traversal:
  "rangeQueryHelper n start end result = result @ traversal_spec n start end"
  by (induction n arbitrary: result) (simp_all add: Let_def)

text \<open>
  Claim C8. \<^verbatim>\<open>rangeQueryHelper\<close> follows the decision rule of the specification: it
  appends to the vector it is given exactly what the specified traversal collects (the
  left subtree iff the value is above \<open>start\<close>, the record iff its value lies in
  \<open>[start, end]\<close>, the right subtree iff the value is below \<open>end\<close>, nothing for an absent
  node), and the result of \<^verbatim>\<open>rangeQuery\<close> is that sequence for the root.
\<close>

theorem rangeQuery_decision_rule:
  "rangeQueryHelper n start end result = result @ traversal_spec n start end \<and>
   rangeQuery db start end = traversal_spec (root (index db)) start end"
  by (simp add: rangeQuery_def rangeQueryHelper_traversal)

lemma valueSorted_Node:
  "valueSorted (AVLNode a l rt h) =
     (valueSorted l \<and> valueSorted rt \<and> (\<forall>x \<in> set (inorder l). val x \<le> val a) \<and>
      (\<forall>x \<in> set (inorder rt). val a \<le> val x))"
  by (auto simp: valueSorted_def sorted_wrt_append intro: order_trans)

lemma traversal_spec_sound:
  "set (traversal_spec t start end) \<subseteq> {r \<in> set (inorder t). start \<le> val r \<and> val r \<le> end}"
  by (induction t) auto





subsection \<open>The rule of the block comment, and the ties the function drops\<close>

text \<open>
  With the comparisons that the block comment prescribes, the traversal returns every
  in-range record of every tree whose values are in key order, ties included.
\<close>

lemma traversal_commented_complete:
  "valueSorted t \<Longrightarrow>
   traversal_commented t start end
     = filter (\<lambda>r. start \<le> val r \<and> val r \<le> end) (inorder t)"
proof (induction t)
  case nullptr
  show ?case by simp
next
  case (AVLNode a l rt h)
  from AVLNode.prems have sl: "valueSorted l" and srt: "valueSorted rt"
    and lo: "\<forall>x \<in> set (inorder l). val x \<le> val a"
    and hi: "\<forall>x \<in> set (inorder rt). val a \<le> val x"
    by (simp_all add: valueSorted_Node)
  have left: "(if val a \<ge> start then traversal_commented l start end else [])
      = filter (\<lambda>r. start \<le> val r \<and> val r \<le> end) (inorder l)"
  proof (cases "val a \<ge> start")
    case True
    then show ?thesis using AVLNode.IH(1) [OF sl] by simp
  next
    case False
    with lo have "\<forall>x \<in> set (inorder l). \<not> start \<le> val x" by force
    with False show ?thesis by (simp add: filter_empty_conv)
  qed
  have right: "(if val a \<le> end then traversal_commented rt start end else [])
      = filter (\<lambda>r. start \<le> val r \<and> val r \<le> end) (inorder rt)"
  proof (cases "val a \<le> end")
    case True
    then show ?thesis using AVLNode.IH(2) [OF srt] by simp
  next
    case False
    with hi have "\<forall>x \<in> set (inorder rt). \<not> val x \<le> end" by force
    with False show ?thesis by (simp add: filter_empty_conv)
  qed
  show ?case unfolding traversal_commented.simps left right by simp
qed

text \<open>
  The function itself, on the first scenario of the specification (the keys a to g, each
  with the value 1): all seven records lie in \<open>[1, 1]\<close>, and \<^verbatim>\<open>rangeQuery(1, 1)\<close>
  returns the record of the root only, because neither subtree is entered when the value
  of a node equals the bound.
\<close>

lemma rangeQuery_boundary_ties:
  "inorder (root (index (foldl IndexedDatabase_insert IndexedDatabase_new
      [Record ''a'' 1, Record ''b'' 1, Record ''c'' 1, Record ''d'' 1,
       Record ''e'' 1, Record ''f'' 1, Record ''g'' 1])))
     = [Record ''a'' 1, Record ''b'' 1, Record ''c'' 1, Record ''d'' 1,
        Record ''e'' 1, Record ''f'' 1, Record ''g'' 1] \<and>
   rangeQuery (foldl IndexedDatabase_insert IndexedDatabase_new
      [Record ''a'' 1, Record ''b'' 1, Record ''c'' 1, Record ''d'' 1,
       Record ''e'' 1, Record ''f'' 1, Record ''g'' 1]) 1 1 = [Record ''d'' 1]"
  by (simp add: rangeQuery_def IndexedDatabase_insert_def IndexedDatabase_new_def
      AVLTree_new_def AVLTree_insert_def)

section \<open>Clearing the store\<close>

text \<open>
  Claim C10. For every state, \<^verbatim>\<open>clearDatabase\<close> leaves the root absent, so that no
  record is stored any more, and leaves \<^verbatim>\<open>nodeCount\<close> at the value it had: the count is
  not reset.
\<close>

theorem clearDatabase_keeps_nodeCount:
  "root (index (clearDatabase db)) = nullptr \<and>
   inorder (root (index (clearDatabase db))) = [] \<and>
   nodeCount (index (clearDatabase db)) = nodeCount (index db)"
  by (simp add: clearDatabase_def)

section \<open>Insertion keeps the tree balanced\<close>

text \<open>
  \<^verbatim>\<open>insertHelper\<close> rebalances every node on the way back from the insertion point, so
  any sequence of insertions into the empty store yields a tree that is balanced at every
  node and whose cached heights are exact.
\<close>

lemma avl_height_nonneg: "avl t \<Longrightarrow> 0 \<le> height t"
  by (induction t) auto

lemma avl_height_calculateHeight: "avl t \<Longrightarrow> height t = calculateHeight t"
  by (induction t) auto

lemma avl_balanced: "avl t \<Longrightarrow> balanced t"
  by (induction t) (auto simp: avl_height_calculateHeight)

lemma avl_reBalance_left:
  assumes "avl l" "avl rt" "height l = height rt + 2"
  shows "avl (reBalance (AVLNode r l rt h)) \<and>
         (height (reBalance (AVLNode r l rt h)) = height l \<or>
          height (reBalance (AVLNode r l rt h)) = height l + 1)"
proof (cases l)
  case nullptr
  with assms avl_height_nonneg [of rt] show ?thesis by simp
next
  case (AVLNode lr ll lrt lh)
  show ?thesis
  proof (cases "height ll \<ge> height lrt")
    case True
    with assms AVLNode show ?thesis by (auto simp: Let_def max_def)
  next
    case False
    then obtain lrr lrl lrrt lrh where lrt: "lrt = AVLNode lrr lrl lrrt lrh"
      using assms(1) AVLNode avl_height_nonneg [of ll] by (cases lrt) auto
    with False assms AVLNode show ?thesis by (auto simp: Let_def max_def split: if_splits)
  qed
qed

lemma avl_reBalance_right:
  assumes "avl l" "avl rt" "height rt = height l + 2"
  shows "avl (reBalance (AVLNode r l rt h)) \<and>
         (height (reBalance (AVLNode r l rt h)) = height rt \<or>
          height (reBalance (AVLNode r l rt h)) = height rt + 1)"
proof (cases rt)
  case nullptr
  with assms avl_height_nonneg [of l] show ?thesis by simp
next
  case (AVLNode rr rl rrt rh)
  show ?thesis
  proof (cases "height rl \<le> height rrt")
    case True
    with assms AVLNode show ?thesis by (auto simp: Let_def max_def)
  next
    case False
    then obtain rlr rll rlrt rlh where rl: "rl = AVLNode rlr rll rlrt rlh"
      using assms(2) AVLNode avl_height_nonneg [of rrt] by (cases rl) auto
    with False assms AVLNode show ?thesis by (auto simp: Let_def max_def split: if_splits)
  qed
qed

lemma avl_reBalance_balanced:
  assumes "avl l" "avl rt" "\<bar>height l - height rt\<bar> \<le> 1"
  shows "reBalance (AVLNode r l rt h) = AVLNode r l rt (1 + max (height l) (height rt))"
  using assms by (auto simp: Let_def)

lemma avl_insertHelper:
  "avl t \<Longrightarrow> avl (insertHelper t x) \<and>
     (height (insertHelper t x) = height t \<or> height (insertHelper t x) = height t + 1)"
proof (induction t)
  case nullptr
  show ?case by simp
next
  case (AVLNode r l rt h)
  from AVLNode.prems have al: "avl l" and art: "avl rt"
    and bal: "\<bar>height l - height rt\<bar> \<le> 1" and h: "h = 1 + max (height l) (height rt)"
    by simp_all
  show ?case
  proof (cases "key x < key r")
    case True
    let ?l = "insertHelper l x"
    from AVLNode.IH(1) [OF al] have al': "avl ?l"
      and hl': "height ?l = height l \<or> height ?l = height l + 1" by simp_all
    have eq: "insertHelper (AVLNode r l rt h) x
        = reBalance (AVLNode r ?l rt (1 + max (height ?l) (height rt)))"
      using True by simp
    show ?thesis
    proof (cases "height ?l = height rt + 2")
      case two: True
      from avl_reBalance_left [OF al' art two, of r "1 + max (height ?l) (height rt)"]
      show ?thesis unfolding eq using hl' bal h two by auto
    next
      case False
      with hl' bal have "\<bar>height ?l - height rt\<bar> \<le> 1" by auto
      from avl_reBalance_balanced [OF al' art this, of r "1 + max (height ?l) (height rt)"]
      show ?thesis unfolding eq using al' art hl' bal h \<open>\<bar>height ?l - height rt\<bar> \<le> 1\<close> by auto
    qed
  next
    case nlt: False
    show ?thesis
    proof (cases "key r < key x")
      case True
      let ?rt = "insertHelper rt x"
      from AVLNode.IH(2) [OF art] have art': "avl ?rt"
        and hrt': "height ?rt = height rt \<or> height ?rt = height rt + 1" by simp_all
      have eq: "insertHelper (AVLNode r l rt h) x
          = reBalance (AVLNode r l ?rt (1 + max (height l) (height ?rt)))"
        using True nlt by simp
      show ?thesis
      proof (cases "height ?rt = height l + 2")
        case two: True
        from avl_reBalance_right [OF al art' two, of r "1 + max (height l) (height ?rt)"]
        show ?thesis unfolding eq using hrt' bal h two by auto
      next
        case False
        with hrt' bal have b: "\<bar>height l - height ?rt\<bar> \<le> 1" by auto
        from avl_reBalance_balanced [OF al art' this, of r "1 + max (height l) (height ?rt)"]
        show ?thesis unfolding eq using al art' hrt' bal h b by auto
      qed
    next
      case False
      have eq: "insertHelper (AVLNode r l rt h) x
          = reBalance (AVLNode r l rt (1 + max (height l) (height rt)))"
        using False nlt by simp
      from avl_reBalance_balanced [OF al art bal, of r "1 + max (height l) (height rt)"]
      show ?thesis unfolding eq using al art bal h by auto
    qed
  qed
qed

lemma avl_AVLTree_insert: "avl (root t) \<Longrightarrow> avl (root (AVLTree_insert t r))"
  using avl_insertHelper [of "root t" r]
  by (cases "root t") (simp_all add: AVLTree_insert_def del: insertHelper.simps)


lemma avl_inserts:
  "avl (root (index db)) \<Longrightarrow> avl (root (index (foldl IndexedDatabase_insert db rs)))"
  by (induction rs arbitrary: db) (simp_all add: IndexedDatabase_insert_def avl_AVLTree_insert)

lemma balanced_inserts:
  "balanced (root (index (foldl IndexedDatabase_insert IndexedDatabase_new rs)))"
  by (rule avl_balanced, rule avl_inserts) (simp add: IndexedDatabase_new_def AVLTree_new_def)

section \<open>Where the code departs from its own intent\<close>

text \<open>
  Claim C1 fails on the code. \<^verbatim>\<open>insertHelper\<close> rebalances every node on the way back
  from the insertion point; \<^verbatim>\<open>deleteNode\<close> calls \<^verbatim>\<open>reBalance\<close> on the root only, and
  does not refresh the cached heights below it. Inserting the keys 5, 2, 7, 1, 3, 8, 4
  gives a balanced tree; deleting the leaf 1 leaves the node 2 with no left child and a
  right subtree of height two.
\<close>

theorem deleteNode_leaves_unbalanced_node:
  "balanced (root (index
      (foldl IndexedDatabase_insert IndexedDatabase_new
         [Record ''5'' 5, Record ''2'' 2, Record ''7'' 7, Record ''1'' 1,
          Record ''3'' 3, Record ''8'' 8, Record ''4'' 4]))) \<and>
   map_option (\<lambda>db. balanced (root (index db)))
     (IndexedDatabase_deleteRecord
        (foldl IndexedDatabase_insert IndexedDatabase_new
           [Record ''5'' 5, Record ''2'' 2, Record ''7'' 7, Record ''1'' 1,
            Record ''3'' 3, Record ''8'' 8, Record ''4'' 4]) ''1'' 1) = Some False"
  by (simp add: IndexedDatabase_insert_def IndexedDatabase_new_def AVLTree_new_def
      AVLTree_insert_def IndexedDatabase_deleteRecord_def AVLTree_deleteNode_def
      searchHelper_def removeNode_def deleteHelper_def replaceChild_def)

text \<open>
  Claim C5 fails on the code in its first half. For an absent key, \<^verbatim>\<open>search\<close> builds
  the sentinel record (empty key, value 0) in a local variable and returns the address of
  that variable, whose lifetime ends with the call: what the caller receives points to no
  record. The tree itself is returned unchanged.
\<close>

theorem search_absent_returns_expired_local:
  "AVLTree_search AVLTree_new ''zzz'' 0 = (ExpiredLocal (Record [] 0), AVLTree_new)"
  by (simp add: AVLTree_search_def searchHelper_def AVLTree_new_def)

text \<open>
  Claim C6 fails on the code. \<^verbatim>\<open>insert\<close> increments \<^verbatim>\<open>nodeCount\<close> whether or not
  \<^verbatim>\<open>insertHelper\<close> created a node: after inserting (a, 1) and then (a, 2) the count is
  two and one node is reachable from the root.
\<close>

theorem nodeCount_counts_dropped_insert:
  "nodeCount (AVLTree_insert (AVLTree_insert AVLTree_new (Record ''a'' 1)) (Record ''a'' 2)) = 2 \<and>
   countNodes (root (AVLTree_insert (AVLTree_insert AVLTree_new (Record ''a'' 1)) (Record ''a'' 2)))
     = 1"
  by (simp add: AVLTree_insert_def AVLTree_new_def)

text \<open>
  Claim C7 fails on the code. \<^verbatim>\<open>searchHelper\<close> is a const member that never writes
  \<^verbatim>\<open>searchComparisonCount\<close>; the only write is in \<^verbatim>\<open>insert\<close>, on an empty tree. After
  one insertion into the empty store the counter is 1 with no search made; after the
  record is deleted again, a search of the empty tree compares no key, and
  \<^verbatim>\<open>getSearchComparisons\<close> still returns 1.
\<close>

theorem searchComparisonCount_not_set_by_search:
  "searchComparisonCount (index (IndexedDatabase_insert IndexedDatabase_new (Record ''a'' 1))) = 1 \<and>
   map_option
     (\<lambda>db. (root (index db), searchHelper (root (index db)) ''a'' 1,
            fst (getSearchComparisons db ''a'' 1)))
     (IndexedDatabase_deleteRecord
        (IndexedDatabase_insert IndexedDatabase_new (Record ''a'' 1)) ''a'' 1)
     = Some (nullptr, None, 1)"
  by (simp add: IndexedDatabase_insert_def IndexedDatabase_new_def AVLTree_new_def
      AVLTree_insert_def IndexedDatabase_deleteRecord_def AVLTree_deleteNode_def
      searchHelper_def removeNode_def getSearchComparisons_def IndexedDatabase_search_def
      AVLTree_search_def getLastSearchComparisons_def)

end
